theory Spec2Isabelle
  imports Main "HOL-Library.Word"
begin

section \<open>Basic types\<close>

text \<open>
  \<open>facade.SID\<close> and \<open>facade.UID\<close> are \<open>int64\<close>: \<open>NextSID\<close> returns the result of
  \<open>atomic.AddInt64\<close> as a SID, and \<open>Bind\<close> stores a UID with \<open>atomic.StoreInt64\<close>.
  They are 64-bit words read as two's complement (\<open>sint\<close>, \<open><s\<close>).
  Connections, network entities, components and setting values are objects of other
  packages; the model keeps a handle for each.
\<close>

type_synonym SID = "64 word"
type_synonym UID = "64 word"
type_synonym FrontendId = string
type_synonym byte = "8 word"
type_synonym handle = nat

datatype error = IllegalUID | SessionIllegalUID | Error string

section \<open>The session id counter (net/session/session.go)\<close>

text \<open>
  \<open>var nextSessionId int64\<close> is package state, zero when the process starts.
  \<open>atomic.AddInt64(&nextSessionId, 1)\<close> adds one, with wrap-around, and returns the new
  value. The counter is passed in and returned: the atomic add makes concurrent calls
  take effect one after the other.
\<close>

definition NextSID :: "64 word \<Rightarrow> SID \<times> 64 word" where
  "NextSID nextSessionId = (let v = nextSessionId + 1 in (v, v))"

text \<open>The identifiers returned by \<open>n\<close> calls in a row, oldest first.\<close>

fun NextSID_calls :: "nat \<Rightarrow> 64 word \<Rightarrow> SID list \<times> 64 word" where
  "NextSID_calls 0 c = ([], c)"
| "NextSID_calls (Suc n) c =
     (let (v, c1) = NextSID c; (vs, c2) = NextSID_calls n c1 in (v # vs, c2))"

section \<open>Sessions\<close>

text \<open>
  Both declarations of \<open>Session\<close> have the fields \<open>sid\<close>, \<open>uid\<close> and \<open>frontendId\<close>;
  the accessors \<open>SID\<close>, \<open>UID\<close>, \<open>FrontendId\<close> and \<open>IsBind\<close> read nothing else. These
  three fields are the common part of the two records below.
\<close>

record Session_ident =
  sid :: SID
  uid :: UID
  frontendId :: FrontendId

definition SID :: "'a Session_ident_scheme \<Rightarrow> SID" where
  "SID s = sid s"

definition UID :: "'a Session_ident_scheme \<Rightarrow> UID" where
  "UID s = uid s"

definition FrontendId :: "'a Session_ident_scheme \<Rightarrow> FrontendId" where
  "FrontendId s = frontendId s"

text \<open>\<open>IsBind\<close> (net/session/session.go): \<open>return s.uid > 0\<close>, a signed comparison.\<close>

definition IsBind :: "'a Session_ident_scheme \<Rightarrow> bool" where
  "IsBind s = (0 <s uid s)"

subsection \<open>The session of net/session/session.go\<close>

record Session_net = Session_ident +
  settings :: "string \<rightharpoonup> handle"
  entity :: "handle option"
  component :: "handle option"

text \<open>
  \<open>Bind\<close> rejects a uid below 1 and otherwise hands over to \<open>Component.Bind\<close>, which
  is not part of the sources at hand: it is the parameter \<open>component_Bind\<close>, working on
  the session and the state \<open>'c\<close> of the component.
\<close>

definition Bind_net ::
  "(SID \<Rightarrow> UID \<Rightarrow> Session_net \<times> 'c \<Rightarrow> error option \<times> Session_net \<times> 'c)
   \<Rightarrow> Session_net \<times> 'c \<Rightarrow> UID \<Rightarrow> error option \<times> Session_net \<times> 'c" where
  "Bind_net component_Bind sc u =
     (if u <s 1 then (Some SessionIllegalUID, sc)
      else component_Bind (sid (fst sc)) u sc)"

subsection \<open>The session that owns a connection\<close>

text \<open>The status constants: \<open>Init = iota\<close>, then \<open>WaitAck\<close>, \<open>Working\<close>, \<open>Closed\<close>.\<close>

definition Init :: int where "Init = 0"
definition WaitAck :: int where "WaitAck = 1"
definition Working :: int where "Working = 2"
definition Closed :: int where "Closed = 3"

text \<open>
  A \<open>SessionListener\<close> is a \<open>func(session)\<close> without result: all it does is its effect,
  so a listener is named and each call of it is recorded. The first two are the closures
  \<open>NewSession\<close> installs. A \<open>MessageListener\<close> is a \<open>func([]byte) error\<close>. A \<open>func\<close>
  value may be \<open>nil\<close>: \<open>None\<close>.
\<close>

datatype SessionListener = Debug_on_closed | Debug_on_error | Listener nat

type_synonym MessageListener = "byte list \<Rightarrow> error option"

record Session = Session_ident +
  data :: "string \<rightharpoonup> handle"
  status :: int
  conn :: handle
  running :: bool
  net :: handle
  sessionComponent :: "handle option"
  lastTime :: "64 word"
  sendChan :: "byte list list"
  onCloseListeners :: "SessionListener option list"
  onErrorListeners :: "SessionListener option list"
  onMessageListener :: "MessageListener option"

text \<open>
  What a session does to the outside, in the order it does it: calls of listeners,
  of the connection, of the component and of the logger.
\<close>

datatype event =
    Listener_Call SessionListener
  | Message_Call "byte list"
  | Conn_Read_Bytes "byte list"
  | Conn_Read_Error
  | Conn_Write "byte list" bool
  | Conn_Close
  | Component_Remove handle SID
  | Go_readPackets int
  | Logger_Warn
  | Logger_Error

text \<open>\<open>NewSession\<close>; \<open>now\<close> is \<open>time.Now().Unix()\<close>.\<close>

definition NewSession :: "SID \<Rightarrow> handle \<Rightarrow> handle \<Rightarrow> handle option \<Rightarrow> 64 word \<Rightarrow> Session" where
  "NewSession sid0 conn0 net0 sc now =
     \<lparr> sid = sid0, uid = 0, frontendId = '''',
       data = Map.empty, status = Init, conn = conn0, running = False, net = net0,
       sessionComponent = sc, lastTime = now, sendChan = [],
       onCloseListeners = [] @ [Some Debug_on_closed],
       onErrorListeners = [] @ [Some Debug_on_error],
       onMessageListener = None \<rparr>"

definition SetStatus :: "Session \<Rightarrow> int \<Rightarrow> Session" where
  "SetStatus s st = s\<lparr>status := st\<rparr>"

definition Status :: "Session \<Rightarrow> int" where
  "Status s = status s"

definition Bind :: "Session \<Rightarrow> UID \<Rightarrow> error option \<times> Session" where
  "Bind s u = (if u <s 1 then (Some IllegalUID, s) else (None, s\<lparr>uid := u\<rparr>))"

definition OnClose :: "Session \<Rightarrow> SessionListener option \<Rightarrow> Session" where
  "OnClose s listener =
     (if listener \<noteq> None then s\<lparr>onCloseListeners := onCloseListeners s @ [listener]\<rparr> else s)"

definition OnError :: "Session \<Rightarrow> SessionListener option \<Rightarrow> Session" where
  "OnError s listener =
     (if listener \<noteq> None then s\<lparr>onErrorListeners := onErrorListeners s @ [listener]\<rparr> else s)"

definition OnMessage :: "Session \<Rightarrow> MessageListener option \<Rightarrow> Session" where
  "OnMessage s listener =
     (if listener \<noteq> None then s\<lparr>onMessageListener := listener\<rparr> else s)"

text \<open>
  \<open>sendChan\<close> is an unbuffered channel, on which \<open>Send\<close> hands a payload to the loop
  of \<open>Start\<close>; the field holds the payloads handed over and not yet received, oldest
  first. \<open>Send\<close> itself calls nothing outside the session.
\<close>

definition Send :: "Session \<Rightarrow> byte list \<Rightarrow> error option \<times> Session \<times> event list" where
  "Send s msg =
     (if \<not> running s then (None, s, [])
      else (None, s\<lparr>sendChan := sendChan s @ [msg]\<rparr>, []))"

fun SendBatch :: "Session \<Rightarrow> byte list list \<Rightarrow> Session \<times> event list" where
  "SendBatch s [] = (s, [])"
| "SendBatch s (msg # batchMsg) =
     (let (e, s1, tr1) = Send s msg; (s2, tr2) = SendBatch s1 batchMsg in (s2, tr1 @ tr2))"

text \<open>
  The method \<open>Closed()\<close>; the constant \<open>Closed\<close> above is the status it sets.
\<close>

definition Closed_call :: "Session \<Rightarrow> Session \<times> event list" where
  "Closed_call s =
     (let s1 = s\<lparr>status := Closed\<rparr>; s2 = s1\<lparr>running := False\<rparr>
      in (s2, case sessionComponent s2 of
                None \<Rightarrow> []
              | Some sc \<Rightarrow> [Component_Remove sc (sid s2)]))"

text \<open>
  A call ends in one of three ways: it returns, it panics, or it is still waiting (in
  \<open>conn.Read\<close>, in the receive on \<open>sendChan\<close>) when what the outside is known to do
  has been used up.
\<close>

datatype panic = Listener_not_set | Nil_func_call | Negative_len

datatype outcome = Returned | Blocked | Panicked panic

text \<open>
  The loop of \<open>Start\<close>, \<open>for s.running { select { case msg := <-s.sendChan: ... } }\<close>.
  \<open>ws\<close> gives the results of the calls of \<open>conn.Write\<close> one after the other, \<open>True\<close>
  for an error.
\<close>

fun write_loop :: "Session \<Rightarrow> bool list \<Rightarrow> outcome \<times> Session \<times> event list" where
  "write_loop s [] = (if running s then Blocked else Returned, s, [])"
| "write_loop s (w # ws) =
     (if \<not> running s then (Returned, s, [])
      else case sendChan s of
        [] \<Rightarrow> (Blocked, s, [])
      | msg # q \<Rightarrow>
          (let s1 = s\<lparr>sendChan := q\<rparr>;
               (s2, tr1) = (if w then Closed_call s1 else (s1, []));
               (r, s3, tr2) = write_loop s2 ws
           in (r, s3, Conn_Write msg w # tr1 @ tr2)))"

text \<open>
  \<open>Start\<close> sets \<open>running\<close>, starts \<open>readPackets(2048)\<close> as a goroutine of its own and
  runs the loop above. The goroutine is the separate call \<open>readPackets\<close> below.
\<close>

definition Start :: "Session \<Rightarrow> bool list \<Rightarrow> outcome \<times> Session \<times> event list" where
  "Start s ws =
     (let s1 = s\<lparr>running := True\<rparr>; (r, s2, tr) = write_loop s1 ws
      in (r, s2, Go_readPackets 2048 # tr))"

text \<open>
  \<open>for _, listener := range ls { listener(s) }\<close>: the calls made, and whether the
  loop panicked on a \<open>nil\<close> entry.
\<close>

fun call_listeners :: "SessionListener option list \<Rightarrow> event list \<times> bool" where
  "call_listeners [] = ([], False)"
| "call_listeners (None # ls) = ([], True)"
| "call_listeners (Some l # ls) =
     (let (tr, p) = call_listeners ls in (Listener_Call l # tr, p))"

text \<open>
  What the reader meets, one entry for each test of \<open>s.running\<close>: the next
  \<open>conn.Read\<close> delivers bytes (at most \<open>len(buf)\<close> of them are taken, into the front of
  \<open>buf\<close>, as \<open>io.Reader\<close> has it) or fails; or another goroutine, the loop of \<open>Start\<close>
  for one, has called \<open>Closed()\<close> in between.
\<close>

datatype reader_step = Read_Bytes "byte list" | Read_Error | Other_Closed

fun read_loop :: "Session \<Rightarrow> byte list \<Rightarrow> reader_step list \<Rightarrow> outcome \<times> Session \<times> event list" where
  "read_loop s buf [] = (if running s then Blocked else Returned, s, [])"
| "read_loop s buf (Other_Closed # rs) =
     (let (s1, tr1) = Closed_call s; (r, s2, tr2) = read_loop s1 buf rs
      in (r, s2, tr1 @ tr2))"
| "read_loop s buf (Read_Error # rs) =
     (if \<not> running s then (Returned, s, [])
      else
        (let (tr, p) = call_listeners (onErrorListeners s)
         in if p then (Panicked Nil_func_call, s, Conn_Read_Error # Logger_Warn # tr)
            else (Returned, s\<lparr>running := False\<rparr>, Conn_Read_Error # Logger_Warn # tr)))"
| "read_loop s buf (Read_Bytes bs # rs) =
     (if \<not> running s then (Returned, s, [])
      else
        (let d = take (length buf) bs; n = length d; buf1 = d @ drop n buf
         in if n < 1 then
              (let (r, s1, tr) = read_loop s buf1 rs in (r, s1, Conn_Read_Bytes d # tr))
            else
              (case onMessageListener s of
                 None \<Rightarrow> (Panicked Nil_func_call, s, [Conn_Read_Bytes d])
               | Some f \<Rightarrow>
                   (case f (take n buf1) of
                      Some err \<Rightarrow>
                        (Returned, s, [Conn_Read_Bytes d, Message_Call (take n buf1), Logger_Warn])
                    | None \<Rightarrow>
                        (let (r, s1, tr) = read_loop s buf1 rs
                         in (r, s1, Conn_Read_Bytes d # Message_Call (take n buf1) # tr))))))"

text \<open>
  \<open>readPackets\<close>. The panic for a missing message listener comes before the \<open>defer\<close>;
  everything after it, also a panic (of \<open>make\<close> on a negative size, of a \<open>nil\<close>
  listener), runs the deferred function when it ends: the close listeners, then
  \<open>conn.Close()\<close>, whose error (\<open>close_err\<close>) is logged.
\<close>

definition readPackets ::
  "Session \<Rightarrow> int \<Rightarrow> reader_step list \<Rightarrow> bool \<Rightarrow> outcome \<times> Session \<times> event list" where
  "readPackets s readSize rs close_err =
     (if onMessageListener s = None then (Panicked Listener_not_set, s, [])
      else
        (let (r, s1, tr) =
               (if readSize < 0 then (Panicked Negative_len, s, [])
                else read_loop s (replicate (nat readSize) 0) rs)
         in if r = Blocked then (Blocked, s1, tr)
            else
              (let (ctr, p) = call_listeners (onCloseListeners s1)
               in if p then (Panicked Nil_func_call, s1, tr @ ctr)
                  else (r, s1, tr @ ctr @ Conn_Close # (if close_err then [Logger_Error] else [])))))"

subsection \<open>Sequences of calls\<close>

datatype op =
    Op_SetStatus int
  | Op_Bind UID
  | Op_OnClose "SessionListener option"
  | Op_OnError "SessionListener option"
  | Op_OnMessage "MessageListener option"
  | Op_Send "byte list"
  | Op_SendBatch "byte list list"
  | Op_Start "bool list"
  | Op_readPackets int "reader_step list" bool
  | Op_Closed

fun run_op :: "op \<Rightarrow> Session \<Rightarrow> outcome \<times> Session \<times> event list" where
  "run_op (Op_SetStatus st) s = (Returned, SetStatus s st, [])"
| "run_op (Op_Bind u) s = (Returned, snd (Bind s u), [])"
| "run_op (Op_OnClose l) s = (Returned, OnClose s l, [])"
| "run_op (Op_OnError l) s = (Returned, OnError s l, [])"
| "run_op (Op_OnMessage l) s = (Returned, OnMessage s l, [])"
| "run_op (Op_Send msg) s = (Returned, snd (Send s msg))"
| "run_op (Op_SendBatch msgs) s = (Returned, SendBatch s msgs)"
| "run_op (Op_Start ws) s = Start s ws"
| "run_op (Op_readPackets readSize rs close_err) s = readPackets s readSize rs close_err"
| "run_op Op_Closed s = (Returned, Closed_call s)"

text \<open>
  Calls one after the other on the same session. A panic ends the process, and with it
  the sequence; a call that is still waiting leaves the session to the calls after it.
\<close>

fun run_ops :: "op list \<Rightarrow> Session \<Rightarrow> panic option \<times> Session \<times> event list" where
  "run_ops [] s = (None, s, [])"
| "run_ops (x # xs) s =
     (case run_op x s of
        (Panicked p, s1, tr1) \<Rightarrow> (Some p, s1, tr1)
      | (r, s1, tr1) \<Rightarrow> (let (q, s2, tr2) = run_ops xs s1 in (q, s2, tr1 @ tr2)))"

text \<open>\<open>Closed()\<close> called \<open>n\<close> times in a row.\<close>

fun Closed_calls :: "nat \<Rightarrow> Session \<Rightarrow> Session \<times> event list" where
  "Closed_calls 0 s = (s, [])"
| "Closed_calls (Suc n) s =
     (let (s1, tr1) = Closed_call s; (s2, tr2) = Closed_calls n s1 in (s2, tr1 @ tr2))"

subsection \<open>Reading a session and a trace\<close>

text \<open>No entry of the two listener lists is \<open>nil\<close>.\<close>

definition no_nil_listeners :: "Session \<Rightarrow> bool" where
  "no_nil_listeners s =
     (None \<notin> set (onCloseListeners s) \<and> None \<notin> set (onErrorListeners s))"

text \<open>The arguments of the calls of the message listener, in the order of the calls.\<close>

fun dispatched :: "event list \<Rightarrow> byte list list" where
  "dispatched [] = []"
| "dispatched (Message_Call bs # tr) = bs # dispatched tr"
| "dispatched (e # tr) = dispatched tr"

text \<open>The bytes of the reads that succeeded with at least one byte, in their order.\<close>

fun reads_with_bytes :: "event list \<Rightarrow> byte list list" where
  "reads_with_bytes [] = []"
| "reads_with_bytes (Conn_Read_Bytes bs # tr) =
     (if 1 \<le> length bs then bs # reads_with_bytes tr else reads_with_bytes tr)"
| "reads_with_bytes (e # tr) = reads_with_bytes tr"

text \<open>
  The events of the end of \<open>readPackets\<close>: a failed read, a call of a session listener,
  the closing of the connection.
\<close>

fun ends_reading :: "event \<Rightarrow> bool" where
  "ends_reading Conn_Read_Error = True"
| "ends_reading (Listener_Call l) = True"
| "ends_reading Conn_Close = True"
| "ends_reading e = False"


text \<open>
  The events of reads that all succeed, into a buffer of \<open>n\<close> bytes, and whose messages
  the listener accepts: each read, and after it the call of the listener if the read had at
  least one byte.
\<close>

fun read_events :: "nat \<Rightarrow> byte list list \<Rightarrow> event list" where
  "read_events n [] = []"
| "read_events n (bs # bss) =
     Conn_Read_Bytes (take n bs)
       # (if 1 \<le> length (take n bs) then [Message_Call (take n bs)] else [])
       @ read_events n bss"

text \<open>
  The cleanup as it is to be: the close listeners of the session in the order of their
  list, then the closing of the connection, then the log of its error if it has one.
\<close>

definition cleanup_events :: "Session \<Rightarrow> bool \<Rightarrow> event list" where
  "cleanup_events s close_err =
     map Listener_Call (map the (onCloseListeners s))
       @ Conn_Close # (if close_err then [Logger_Error] else [])"

text \<open>
  The listeners that a call registers: \<open>OnClose\<close> and \<open>OnError\<close> with a listener that is
  not \<open>nil\<close> register it, no other call registers any.
\<close>

fun registers_close :: "op \<Rightarrow> SessionListener option list" where
  "registers_close (Op_OnClose (Some l)) = [Some l]"
| "registers_close x = []"

fun registers_error :: "op \<Rightarrow> SessionListener option list" where
  "registers_error (Op_OnError (Some l)) = [Some l]"
| "registers_error x = []"

text \<open>
  A session for the examples: made by \<open>NewSession\<close> with a component, then given the
  message listener \<open>f\<close>, the close listener 1, the error listener 2 and the close listener
  3, in this order, and started.
\<close>

definition listening_session :: "MessageListener \<Rightarrow> Session" where
  "listening_session f =
     fst (snd (run_ops
       [Op_OnMessage (Some f), Op_OnClose (Some (Listener 1)), Op_OnError (Some (Listener 2)),
        Op_OnClose (Some (Listener 3)), Op_Start []]
       (NewSession 7 0 0 (Some 1) 0)))"

section \<open>Verification\<close>

subsection \<open>Binding\<close>

text \<open>
  C4. For every uid below 1, \<open>Bind\<close> returns the illegal-uid error and leaves the session
  as it was, the uid with it. This holds for the \<open>Bind\<close> that stores the uid itself and
  for the one of net/session/session.go, whatever \<open>Component.Bind\<close> does, since it is
  not reached.
\<close>

theorem Bind_illegal_uid:
  "u <s 1 \<Longrightarrow>
     Bind s u = (Some IllegalUID, s) \<and> Bind_net component_Bind sc u = (Some SessionIllegalUID, sc)"
  by (simp add: Bind_def Bind_net_def)

theorem Bind_illegal_uid_witness:
  "(0 :: UID) <s 1 \<and>
   Bind (NewSession 7 0 0 None 0) 0 = (Some IllegalUID, NewSession 7 0 0 None 0) \<and>
   Bind_net (\<lambda>i u sc. (None, sc))
     (\<lparr>sid = 7, uid = 0, frontendId = ''node-1'', settings = Map.empty, entity = None,
       component = None\<rparr>, ()) 0 =
     (Some SessionIllegalUID,
      \<lparr>sid = 7, uid = 0, frontendId = ''node-1'', settings = Map.empty, entity = None,
       component = None\<rparr>, ())"
proof -
  have h: "(0 :: UID) <s 1" by (simp add: word_sless_alt)
  show ?thesis using h Bind_illegal_uid [OF h] by simp
qed

text \<open>
  C5. For every uid of at least 1, \<open>Bind\<close> returns without error, and on the session it
  leaves \<open>UID\<close> returns that uid and \<open>IsBind\<close> returns true.
\<close>

theorem Bind_then_UID:
  "1 \<le>s u \<Longrightarrow>
     fst (Bind s u) = None \<and> UID (snd (Bind s u)) = u \<and> IsBind (snd (Bind s u))"
  by (simp add: Bind_def UID_def IsBind_def word_sless_alt word_sle_eq)

theorem Bind_then_UID_witness:
  "(1 :: UID) \<le>s 42 \<and>
   fst (Bind (NewSession 7 0 0 None 0) 42) = None \<and>
   UID (snd (Bind (NewSession 7 0 0 None 0) 42)) = 42 \<and>
   IsBind (snd (Bind (NewSession 7 0 0 None 0) 42))"
proof -
  have h: "(1 :: UID) \<le>s 42" by (simp add: word_sle_eq)
  show ?thesis using h Bind_then_UID [OF h] by simp
qed

subsection \<open>Send on a session that is not running\<close>

text \<open>
  C3. \<open>Send\<close> on a session whose \<open>running\<close> flag is false returns \<open>nil\<close>, hands nothing
  to \<open>sendChan\<close>, calls nothing on the connection and leaves the session as it was. A
  session is in that state when \<open>NewSession\<close> has made it and \<open>Start\<close> has not run, and
  after \<open>Closed()\<close>.
\<close>

theorem Send_not_running:
  "(\<not> running s \<longrightarrow> Send s msg = (None, s, [])) \<and>
   Send (NewSession i c n sc now) msg = (None, NewSession i c n sc now, []) \<and>
   Send (fst (Closed_call s)) msg = (None, fst (Closed_call s), [])"
  by (simp add: Send_def NewSession_def Closed_call_def Let_def)

theorem Send_not_running_witness:
  "\<not> running (SetStatus (NewSession 7 0 0 None 0) Working) \<and>
   Send (SetStatus (NewSession 7 0 0 None 0) Working) [1, 2, 3] =
     (None, SetStatus (NewSession 7 0 0 None 0) Working, [])"
proof -
  have h: "\<not> running (SetStatus (NewSession 7 0 0 None 0) Working)"
    by (simp add: SetStatus_def NewSession_def)
  show ?thesis
    using h Send_not_running [of "SetStatus (NewSession 7 0 0 None 0) Working" "[1, 2, 3]"]
    by blast
qed

subsection \<open>Session identifiers\<close>

lemma sint_succ:
  fixes c :: "64 word"
  assumes "sint c < 2 ^ 63 - 1"
  shows "sint (c + 1) = sint c + 1"
proof -
  have lo: "- (2 ^ 63) \<le> sint c"
    using sint_ge [of c] by simp
  have "sint (c + 1) = signed_take_bit 63 (sint c + 1)"
    by (simp add: sint_word_ariths)
  also have "\<dots> = sint c + 1"
    using lo assms by (intro signed_take_bit_int_eq_self) auto
  finally show ?thesis .
qed

lemma NextSID_calls_Suc:
  "NextSID_calls (Suc n) c =
     ((c + 1) # fst (NextSID_calls n (c + 1)), snd (NextSID_calls n (c + 1)))"
  by (simp add: NextSID_def Let_def split: prod.splits)

text \<open>After \<open>n\<close> calls the counter of a fresh process holds \<open>n\<close>, modulo \<open>2 ^ 64\<close>.\<close>

lemma NextSID_calls_counter: "snd (NextSID_calls n c) = c + of_nat n"
proof (induction n arbitrary: c)
  case 0
  show ?case by simp
next
  case (Suc n)
  show ?case
    unfolding NextSID_calls_Suc snd_conv Suc by (simp add: add.assoc)
qed

text \<open>
  C9, as the code has it. While the counter stays below \<open>2 ^ 63\<close> (the calls made so far
  and the \<open>n\<close> that follow do not pass the largest \<open>int64\<close>), each call returns an
  identifier above the counter it started from and above every identifier returned by a
  call before it; the identifiers are then all different.
\<close>

theorem NextSID_increasing:
  "sint c + int n < 2 ^ 63 \<Longrightarrow>
     sorted_wrt (<s) (fst (NextSID_calls n c)) \<and>
     (\<forall>v \<in> set (fst (NextSID_calls n c)). c <s v)"
proof (induction n arbitrary: c)
  case 0
  show ?case by simp
next
  case (Suc n)
  have s1: "sint (c + 1) = sint c + 1"
    using Suc.prems by (intro sint_succ) simp
  have "sint (c + 1) + int n < 2 ^ 63"
    using Suc.prems s1 by simp
  from Suc.IH [OF this]
  have srt: "sorted_wrt (<s) (fst (NextSID_calls n (c + 1)))"
    and gt: "\<forall>v \<in> set (fst (NextSID_calls n (c + 1))). c + 1 <s v"
    by auto
  have c1: "c <s c + 1"
    using s1 by (simp add: word_sless_alt)
  have gt': "\<forall>v \<in> set (fst (NextSID_calls n (c + 1))). c <s v"
    using gt c1 by (auto simp: word_sless_alt)
  show ?case
    unfolding NextSID_calls_Suc fst_conv using srt gt gt' c1 by simp
qed

theorem NextSID_increasing_witness:
  "sint (0 :: 64 word) + int 3 < 2 ^ 63 \<and>
   fst (NextSID_calls 3 0) = [1, 2, 3] \<and>
   sorted_wrt (<s) (fst (NextSID_calls 3 0))"
proof -
  have h: "sint (0 :: 64 word) + int 3 < 2 ^ 63" by simp
  have e: "fst (NextSID_calls 3 0) = [1, 2, 3]"
    by (simp add: numeral_3_eq_3 NextSID_def Let_def)
  show ?thesis using h e NextSID_increasing [OF h] by blast
qed

text \<open>
  C9 as stated fails where the \<open>int64\<close> counter wraps around. A fresh process reaches the
  counter \<open>2 ^ 63 - 2\<close> after that many calls; the next call returns the largest
  \<open>int64\<close>, and the one after it returns the smallest, which is below it.
\<close>

theorem NextSID_wraps:
  "snd (NextSID_calls 9223372036854775806 0) = 0x7FFFFFFFFFFFFFFE \<and>
   fst (NextSID 0x7FFFFFFFFFFFFFFE) = 0x7FFFFFFFFFFFFFFF \<and>
   fst (NextSID (snd (NextSID 0x7FFFFFFFFFFFFFFE))) = 0x8000000000000000 \<and>
   \<not> (fst (NextSID 0x7FFFFFFFFFFFFFFE) <s fst (NextSID (snd (NextSID 0x7FFFFFFFFFFFFFFE))))"
proof -
  have "snd (NextSID_calls 9223372036854775806 0) = 0x7FFFFFFFFFFFFFFE"
    using NextSID_calls_counter [of 9223372036854775806 0] by simp
  then show ?thesis
    by (simp add: NextSID_def Let_def word_sless_alt)
qed

subsection \<open>What the calls leave untouched\<close>

lemma Closed_call_fields:
  "onCloseListeners (fst (Closed_call s)) = onCloseListeners s"
  "onErrorListeners (fst (Closed_call s)) = onErrorListeners s"
  "onMessageListener (fst (Closed_call s)) = onMessageListener s"
  "sessionComponent (fst (Closed_call s)) = sessionComponent s"
  "sid (fst (Closed_call s)) = sid s"
  "status (fst (Closed_call s)) = Closed"
  "running (fst (Closed_call s)) = False"
  by (simp_all add: Closed_call_def Let_def)

lemma call_listeners_ok:
  "call_listeners ls = (tr, False) \<Longrightarrow> tr = map Listener_Call (map the ls) \<and> None \<notin> set ls"
proof (induction ls arbitrary: tr)
  case Nil then show ?case by simp
next
  case (Cons a ls)
  then show ?case by (cases a) (auto split: prod.splits)
qed

lemma read_loop_frame:
  "onCloseListeners (fst (snd (read_loop s buf rs))) = onCloseListeners s \<and>
   onErrorListeners (fst (snd (read_loop s buf rs))) = onErrorListeners s \<and>
   onMessageListener (fst (snd (read_loop s buf rs))) = onMessageListener s \<and>
   (status (fst (snd (read_loop s buf rs))) = status s \<or> status (fst (snd (read_loop s buf rs))) = Closed)"
proof (induction rs arbitrary: s buf)
  case Nil
  then show ?case by simp
next
  case (Cons a rs)
  show ?case
  proof (cases a)
    case (Read_Bytes bs)
    show ?thesis 
      unfolding Read_Bytes using Cons.IH [of s]
      by (simp add: Let_def case_prod_beta split: option.splits)
  next
    case Read_Error
    show ?thesis unfolding Read_Error
      by (simp add: Let_def case_prod_beta)
  next
    case Other_Closed
    show ?thesis unfolding Other_Closed using Cons.IH [of "fst (Closed_call s)" buf]
      by (simp add: Let_def case_prod_beta Closed_call_fields)
  qed
qed

lemma read_loop_panic: "fst (read_loop s buf rs) \<noteq> Panicked Listener_not_set"
proof (induction rs arbitrary: s buf)
  case Nil
  then show ?case by simp
next
  case (Cons a rs)
  show ?case
  proof (cases a)
    case (Read_Bytes bs)
    show ?thesis 
      unfolding Read_Bytes using Cons.IH [of s]
      by (simp add: Let_def case_prod_beta split: option.splits)
  next
    case Read_Error
    show ?thesis unfolding Read_Error
      by (simp add: Let_def case_prod_beta)
  next
    case Other_Closed
    show ?thesis unfolding Other_Closed using Cons.IH [of "fst (Closed_call s)" buf]
      by (simp add: Let_def case_prod_beta)
  qed
qed

lemma dispatched_append: "dispatched (xs @ ys) = dispatched xs @ dispatched ys"
  by (induction xs rule: dispatched.induct) simp_all

lemma reads_with_bytes_append: "reads_with_bytes (xs @ ys) = reads_with_bytes xs @ reads_with_bytes ys"
  by (induction xs rule: reads_with_bytes.induct) simp_all

lemma Closed_call_trace:
  "dispatched (snd (Closed_call s)) = []" "reads_with_bytes (snd (Closed_call s)) = []"
  by (simp_all add: Closed_call_def Let_def split: option.splits)

lemma call_listeners_trace:
  "dispatched (fst (call_listeners ls)) = [] \<and> reads_with_bytes (fst (call_listeners ls)) = []"
proof (induction ls)
  case Nil then show ?case by simp
next
  case (Cons a ls)
  then show ?case by (cases a) (simp_all add: case_prod_beta)
qed

subsection \<open>The reader\<close>

text \<open>
  One turn of the loop on a read that succeeds, with the slice \<open>buf[:n]\<close> worked out:
  it holds the bytes the read has put into the buffer.
\<close>

lemma read_loop_Read_Bytes:
  "read_loop s buf (Read_Bytes bs # rs) =
     (let d = take (length buf) bs; L = read_loop s (d @ drop (length d) buf) rs
      in if \<not> running s then (Returned, s, [])
         else if d = [] then (fst L, fst (snd L), Conn_Read_Bytes d # snd (snd L))
         else
           (case onMessageListener s of
              None \<Rightarrow> (Panicked Nil_func_call, s, [Conn_Read_Bytes d])
            | Some f \<Rightarrow>
                (case f d of
                   Some err \<Rightarrow> (Returned, s, [Conn_Read_Bytes d, Message_Call d, Logger_Warn])
                 | None \<Rightarrow>
                     (fst L, fst (snd L), Conn_Read_Bytes d # Message_Call d # snd (snd L)))))"
proof -
  define d where "d = take (length buf) bs"
  have v: "take (length d) (d @ drop (length d) buf) = d" by simp
  have n: "(length d < 1) = (d = [])" by auto
  show ?thesis
    unfolding read_loop.simps Let_def d_def [symmetric] v n
    by (simp add: case_prod_beta split: option.splits)
qed

lemma read_loop_dispatch:
  "onMessageListener s \<noteq> None \<Longrightarrow>
   dispatched (snd (snd (read_loop s buf rs))) = reads_with_bytes (snd (snd (read_loop s buf rs)))"
proof (induction rs arbitrary: s buf)
  case Nil
  then show ?case by simp
next
  case (Cons a rs)
  show ?case
  proof (cases a)
    case (Read_Bytes bs)
    show ?thesis 
      unfolding Read_Bytes using Cons.IH [of s] Cons.prems
      by (subst (1 2) read_loop_Read_Bytes) (auto simp: Let_def Suc_le_eq split: option.splits)
  next
    case Read_Error
    show ?thesis unfolding Read_Error using call_listeners_trace [of "onErrorListeners s"]
      by (simp add: Let_def case_prod_beta)
  next
    case Other_Closed
    show ?thesis unfolding Other_Closed using Cons.IH [of "fst (Closed_call s)" buf] Cons.prems
      by (simp add: Let_def case_prod_beta Closed_call_fields Closed_call_trace dispatched_append reads_with_bytes_append)
  qed
qed

lemma readPackets_dispatch:
  "dispatched (snd (snd (readPackets s n rs ce))) = reads_with_bytes (snd (snd (readPackets s n rs ce)))"
proof (cases "onMessageListener s = None")
  case True
  then show ?thesis by (simp add: readPackets_def)
next
  case False
  show ?thesis
  proof (cases "n < 0")
    case True
    then show ?thesis using False call_listeners_trace [of "onCloseListeners s"]
      by (simp add: readPackets_def Let_def case_prod_beta dispatched_append reads_with_bytes_append)
  next
    case nn: False
    let ?L = "read_loop s (replicate (nat n) 0) rs"
    have d: "dispatched (snd (snd ?L)) = reads_with_bytes (snd (snd ?L))"
      using read_loop_dispatch [OF False] .
    show ?thesis using False nn d call_listeners_trace [of "onCloseListeners (fst (snd ?L))"]
      by (simp add: readPackets_def Let_def case_prod_beta dispatched_append reads_with_bytes_append)
  qed
qed

text \<open>
  A run in which every read succeeds and the listener accepts every message: the loop
  goes on, and is waiting in \<open>conn.Read\<close> when the reads are used up.
\<close>

lemma read_loop_all_ok:
  assumes "running s" "onMessageListener s = Some f" "\<And>bs. f bs = None"
  shows "fst (read_loop s buf (map Read_Bytes bss)) = Blocked \<and>
         fst (snd (read_loop s buf (map Read_Bytes bss))) = s \<and>
         dispatched (snd (snd (read_loop s buf (map Read_Bytes bss)))) =
           filter (\<lambda>d. d \<noteq> []) (map (take (length buf)) bss)"
proof (induction bss arbitrary: buf)
  case Nil
  show ?case using assms by simp
next
  case (Cons bs bss)
  let ?d = "take (length buf) bs"
  have len: "length (?d @ drop (length ?d) buf) = length buf" by simp
  show ?case
    using Cons.IH [of "?d @ drop (length ?d) buf"] assms unfolding len
    by (simp add: read_loop_Read_Bytes Let_def del: read_loop.simps)
qed

text \<open>
  The end of a loop that has returned: nothing, or a failed read with its warning and
  the calls of the error listeners.
\<close>

lemma Closed_call_dropWhile:
  "dropWhile (\<lambda>e. \<not> ends_reading e) (snd (Closed_call s) @ xs) = dropWhile (\<lambda>e. \<not> ends_reading e) xs"
  "Conn_Read_Error \<notin> set (snd (Closed_call s))"
  by (simp_all add: Closed_call_def Let_def split: option.splits)

lemma read_loop_end:
  "fst (read_loop s buf rs) = Returned \<Longrightarrow>
     dropWhile (\<lambda>e. \<not> ends_reading e) (snd (snd (read_loop s buf rs))) =
       (if Conn_Read_Error \<in> set (snd (snd (read_loop s buf rs)))
        then Conn_Read_Error # Logger_Warn # map Listener_Call (map the (onErrorListeners s))
        else []) \<and>
     (Conn_Read_Error \<in> set (snd (snd (read_loop s buf rs))) \<longrightarrow> None \<notin> set (onErrorListeners s))"
proof (induction rs arbitrary: s buf)
  case Nil
  then show ?case by simp
next
  case (Cons a rs)
  show ?case
  proof (cases a)
    case (Read_Bytes bs)
    show ?thesis
      using Cons.prems Cons.IH [of s "take (length buf) bs @ drop (length (take (length buf) bs)) buf"]
      unfolding Read_Bytes
      by (auto simp add: read_loop_Read_Bytes Let_def simp del: read_loop.simps
            split: option.splits if_splits)
  next
    case Read_Error
    obtain tr p where cl: "call_listeners (onErrorListeners s) = (tr, p)"
      by (cases "call_listeners (onErrorListeners s)")
    show ?thesis
    proof (cases "running s")
      case True
      with Cons.prems cl have "\<not> p" unfolding Read_Error by (auto split: if_splits)
      with cl call_listeners_ok [of "onErrorListeners s" tr] True show ?thesis
        unfolding Read_Error by simp
    next
      case False
      then show ?thesis unfolding Read_Error by simp
    qed
  next
    case Other_Closed
    show ?thesis
      using Cons.prems Cons.IH [of "fst (Closed_call s)" buf]
      unfolding Other_Closed
      by (simp add: case_prod_beta Closed_call_fields Closed_call_dropWhile)
  qed
qed

lemma cleanup_dropWhile:
  "dropWhile (\<lambda>e. \<not> ends_reading e) (map Listener_Call ls @ Conn_Close # xs) =
     map Listener_Call ls @ Conn_Close # xs"
  by (cases ls) simp_all

lemma cleanup_no_read_error:
  "Conn_Read_Error \<notin> set (map Listener_Call ls @ Conn_Close # (if ce then [Logger_Error] else []))"
  by auto

lemma readPackets_returned:
  assumes "readPackets s n rs ce = (Returned, s', tr)"
  shows "0 \<le> n \<and> onMessageListener s \<noteq> None \<and>
         fst (read_loop s (replicate (nat n) 0) rs) = Returned \<and>
         s' = fst (snd (read_loop s (replicate (nat n) 0) rs)) \<and>
         snd (call_listeners (onCloseListeners s)) = False \<and>
         tr = snd (snd (read_loop s (replicate (nat n) 0) rs)) @ fst (call_listeners (onCloseListeners s))
                @ Conn_Close # (if ce then [Logger_Error] else [])"
proof -
  let ?L = "read_loop s (replicate (nat n) 0) rs"
  have f: "onCloseListeners (fst (snd ?L)) = onCloseListeners s"
    using read_loop_frame [of s "replicate (nat n) 0" rs] by simp
  show ?thesis
    using assms unfolding readPackets_def Let_def case_prod_beta
    by (simp add: f split: if_splits)
qed

text \<open>
  The end of the trace of a \<open>readPackets\<close> that has returned, from the first event that
  ends the reading on, and the number of times the connection is closed in it.
\<close>

lemma readPackets_end_of_trace:
  assumes "readPackets s n rs ce = (Returned, s', tr)"
  shows "None \<notin> set (onCloseListeners s) \<and>
         dropWhile (\<lambda>e. \<not> ends_reading e) tr =
           (if Conn_Read_Error \<in> set tr
            then Conn_Read_Error # Logger_Warn # map Listener_Call (map the (onErrorListeners s))
            else [])
           @ map Listener_Call (map the (onCloseListeners s))
           @ Conn_Close # (if ce then [Logger_Error] else []) \<and>
         (Conn_Read_Error \<in> set tr \<longrightarrow> None \<notin> set (onErrorListeners s)) \<and>
         count_list tr Conn_Close = 1"
proof -
  let ?P = "\<lambda>e. \<not> ends_reading e"
  let ?L = "read_loop s (replicate (nat n) 0) rs"
  let ?B = "snd (snd ?L)"
  let ?C = "map Listener_Call (map the (onCloseListeners s)) @ Conn_Close # (if ce then [Logger_Error] else [])"
  from readPackets_returned [OF assms]
  have ret: "fst ?L = Returned"
    and np: "snd (call_listeners (onCloseListeners s)) = False"
    and tr0: "tr = ?B @ fst (call_listeners (onCloseListeners s)) @ Conn_Close # (if ce then [Logger_Error] else [])"
    by simp_all
  have cl: "call_listeners (onCloseListeners s) = (fst (call_listeners (onCloseListeners s)), False)"
    using np by (metis prod.collapse)
  from call_listeners_ok [OF cl]
  have calls: "fst (call_listeners (onCloseListeners s)) = map Listener_Call (map the (onCloseListeners s))"
    and nonil: "None \<notin> set (onCloseListeners s)" by simp_all
  have tr: "tr = ?B @ ?C" using tr0 calls by simp
  from read_loop_end [OF ret]
  have dB: "dropWhile ?P ?B =
      (if Conn_Read_Error \<in> set ?B
       then Conn_Read_Error # Logger_Warn # map Listener_Call (map the (onErrorListeners s)) else [])"
    and eB: "Conn_Read_Error \<in> set ?B \<longrightarrow> None \<notin> set (onErrorListeners s)" by simp_all
  have mem: "Conn_Read_Error \<in> set tr \<longleftrightarrow> Conn_Read_Error \<in> set ?B"
    unfolding tr using cleanup_no_read_error [of "map the (onCloseListeners s)" ce] by auto
  have dtr: "dropWhile ?P tr =
      (if Conn_Read_Error \<in> set ?B
       then Conn_Read_Error # Logger_Warn # map Listener_Call (map the (onErrorListeners s)) else []) @ ?C"
  proof (cases "Conn_Read_Error \<in> set ?B")
    case True
    have "\<not> ?P Conn_Read_Error" by simp
    from dropWhile_append1 [of Conn_Read_Error ?B ?P, OF True this]
    show ?thesis unfolding tr using dB True by simp
  next
    case False
    with dB have "dropWhile ?P ?B = []" by simp
    then have "\<And>x. x \<in> set ?B \<Longrightarrow> ?P x" by (simp add: dropWhile_eq_Nil_conv)
    from dropWhile_append2 [of ?B ?P, OF this]
    have "dropWhile ?P (?B @ ?C) = dropWhile ?P ?C" by blast
    also have "\<dots> = ?C" by (rule cleanup_dropWhile)
    finally show ?thesis unfolding tr using False by (simp only: if_False append_Nil)
  qed
  have "Conn_Close \<notin> set (takeWhile ?P tr)"
    using set_takeWhileD [of Conn_Close ?P tr] by auto
  then have c1: "count_list (takeWhile ?P tr) Conn_Close = 0" by (simp add: count_list_0_iff)
  have c2: "count_list (map (Listener_Call \<circ> f) ls) Conn_Close = 0" for f ls
    by (simp add: count_list_0_iff image_iff)
  have "count_list tr Conn_Close = count_list (takeWhile ?P tr) Conn_Close + count_list (dropWhile ?P tr) Conn_Close"
    by (metis count_list_append takeWhile_dropWhile_id)
  then have cnt: "count_list tr Conn_Close = 1"
    unfolding dtr using c1 by (simp add: c2)
  show ?thesis using nonil dtr mem eB cnt by simp
qed

text \<open>
  C8. \<open>readPackets\<close> on a session without a message listener panics at once: nothing
  is read, no listener is called, the session is as it was. With a message listener
  registered, that panic does not happen.
\<close>

theorem readPackets_needs_listener:
  "(onMessageListener s = None \<longrightarrow> readPackets s n rs ce = (Panicked Listener_not_set, s, [])) \<and>
   (onMessageListener s \<noteq> None \<longrightarrow> fst (readPackets s n rs ce) \<noteq> Panicked Listener_not_set)"
  using read_loop_panic [of s "replicate (nat n) 0" rs]
  by (simp add: readPackets_def Let_def case_prod_beta)

theorem readPackets_needs_listener_witness:
  "onMessageListener (NewSession 7 0 0 None 0) = None \<and>
   readPackets (NewSession 7 0 0 None 0) 2048 [Read_Bytes [1]] False =
     (Panicked Listener_not_set, NewSession 7 0 0 None 0, []) \<and>
   onMessageListener (OnMessage (NewSession 7 0 0 None 0) (Some (\<lambda>bs. None))) \<noteq> None \<and>
   fst (readPackets (OnMessage (NewSession 7 0 0 None 0) (Some (\<lambda>bs. None))) 2048 [Read_Bytes [1]] False)
     \<noteq> Panicked Listener_not_set"
proof -
  have h1: "onMessageListener (NewSession 7 0 0 None 0) = None"
    by (simp add: NewSession_def)
  have h2: "onMessageListener (OnMessage (NewSession 7 0 0 None 0) (Some (\<lambda>bs. None))) \<noteq> None"
    by (simp add: OnMessage_def)
  show ?thesis
    using h1 h2
      readPackets_needs_listener [of "NewSession 7 0 0 None 0" 2048 "[Read_Bytes [1]]" False]
      readPackets_needs_listener [of "OnMessage (NewSession 7 0 0 None 0) (Some (\<lambda>bs. None))" 2048
        "[Read_Bytes [1]]" False]
    by blast
qed

text \<open>
  C6. In every run of \<open>readPackets\<close> the arguments of the calls of the message listener
  are, in order, the bytes of the reads that succeeded with at least one byte: one call
  for each such read, with the bytes read, and none for a read of zero bytes. Where all
  reads succeed and the listener returns no error, these are the deliveries of the
  connection that are not empty, each cut to the size of the buffer.
\<close>

theorem readPackets_one_call_per_read:
  "dispatched (snd (snd (readPackets s n rs ce))) = reads_with_bytes (snd (snd (readPackets s n rs ce))) \<and>
   (running s \<and> onMessageListener s = Some f \<and> (\<forall>bs. f bs = None) \<and> 0 \<le> n \<longrightarrow>
      fst (readPackets s n (map Read_Bytes bss) ce) = Blocked \<and>
      dispatched (snd (snd (readPackets s n (map Read_Bytes bss) ce))) =
        filter (\<lambda>d. d \<noteq> []) (map (take (nat n)) bss))"
proof -
  have "fst (readPackets s n (map Read_Bytes bss) ce) = Blocked \<and>
      dispatched (snd (snd (readPackets s n (map Read_Bytes bss) ce))) =
        filter (\<lambda>d. d \<noteq> []) (map (take (nat n)) bss)"
    if a: "running s" "onMessageListener s = Some f" "\<forall>bs. f bs = None" "0 \<le> n"
  proof -
    from read_loop_all_ok [of s f "replicate (nat n) 0" bss] a
    show ?thesis by (simp add: readPackets_def Let_def case_prod_beta)
  qed
  then show ?thesis using readPackets_dispatch [of s n rs ce] by blast
qed

theorem readPackets_one_call_per_read_witness:
  "running ((OnMessage (NewSession 7 0 0 None 0) (Some (\<lambda>bs. None)))\<lparr>running := True\<rparr>) \<and>
   onMessageListener ((OnMessage (NewSession 7 0 0 None 0) (Some (\<lambda>bs. None)))\<lparr>running := True\<rparr>)
     = Some (\<lambda>bs. None) \<and>
   (0 :: int) \<le> 2048 \<and>
   fst (readPackets ((OnMessage (NewSession 7 0 0 None 0) (Some (\<lambda>bs. None)))\<lparr>running := True\<rparr>)
          2048 (map Read_Bytes [[1, 2, 3], []]) False) = Blocked \<and>
   dispatched (snd (snd (readPackets
          ((OnMessage (NewSession 7 0 0 None 0) (Some (\<lambda>bs. None)))\<lparr>running := True\<rparr>)
          2048 (map Read_Bytes [[1, 2, 3], []]) False))) = [[1, 2, 3]]"
proof -
  let ?S = "(OnMessage (NewSession 7 0 0 None 0) (Some (\<lambda>bs. None)))\<lparr>running := True\<rparr>"
  have h: "running ?S \<and> onMessageListener ?S = Some (\<lambda>bs. None) \<and>
      (\<forall>bs::byte list. (\<lambda>bs. None :: error option) bs = None) \<and> (0 :: int) \<le> 2048"
    by (simp add: OnMessage_def NewSession_def)
  from h readPackets_one_call_per_read [of ?S 2048 "[]" False "\<lambda>bs. None" "[[1, 2, 3], []]"]
  have "fst (readPackets ?S 2048 (map Read_Bytes [[1, 2, 3], []]) False) = Blocked \<and>
        dispatched (snd (snd (readPackets ?S 2048 (map Read_Bytes [[1, 2, 3], []]) False))) =
          filter (\<lambda>d. d \<noteq> []) (map (take (nat 2048)) [[1, 2, 3], []])"
    by blast
  then show ?thesis using h by simp
qed

subsection \<open>The status and the listener lists under the calls\<close>

lemma write_loop_frame:
  "onCloseListeners (fst (snd (write_loop s ws))) = onCloseListeners s \<and>
   onErrorListeners (fst (snd (write_loop s ws))) = onErrorListeners s \<and>
   (status (fst (snd (write_loop s ws))) = status s \<or> status (fst (snd (write_loop s ws))) = Closed)"
proof (induction ws arbitrary: s)
  case Nil
  show ?case by simp
next
  case (Cons w ws)
  show ?case
  proof (cases "sendChan s")
    case Nil
    then show ?thesis by simp
  next
    case (Cons msg q)
    show ?thesis
    proof (cases w)
      case True
      show ?thesis using Cons.IH [of "fst (Closed_call (s\<lparr>sendChan := q\<rparr>))"] Cons True
        by (simp add: Let_def case_prod_beta Closed_call_fields)
    next
      case False
      show ?thesis using Cons.IH [of "s\<lparr>sendChan := q\<rparr>"] Cons False
        by (simp add: Let_def case_prod_beta)
    qed
  qed
qed

lemma SendBatch_frame:
  "onCloseListeners (fst (SendBatch s msgs)) = onCloseListeners s \<and>
   onErrorListeners (fst (SendBatch s msgs)) = onErrorListeners s \<and>
   status (fst (SendBatch s msgs)) = status s"
proof (induction msgs arbitrary: s)
  case Nil
  show ?case by simp
next
  case (Cons msg msgs)
  show ?case using Cons.IH [of "fst (snd (Send s msg))"]
    by (simp add: case_prod_beta Send_def)
qed

lemma readPackets_state:
  "fst (snd (readPackets s n rs ce)) = s \<or>
   fst (snd (readPackets s n rs ce)) = fst (snd (read_loop s (replicate (nat n) 0) rs))"
  by (simp add: readPackets_def Let_def case_prod_beta)



lemma run_ops_Cons:
  "run_ops (x # xs) s =
     (case fst (run_op x s) of
        Panicked p \<Rightarrow> (Some p, snd (run_op x s))
      | _ \<Rightarrow> (fst (run_ops xs (fst (snd (run_op x s)))), fst (snd (run_ops xs (fst (snd (run_op x s))))),
               snd (snd (run_op x s)) @ snd (snd (run_ops xs (fst (snd (run_op x s)))))))"
  by (cases "run_op x s" rule: prod_cases3) (simp add: case_prod_beta split: outcome.splits)




lemma run_op_no_nil:
  "no_nil_listeners s \<Longrightarrow> no_nil_listeners (fst (snd (run_op x s)))"
proof (cases x)
  case (Op_readPackets n rs ce)
  assume "no_nil_listeners s"
  then show ?thesis unfolding Op_readPackets
    using readPackets_state [of s n rs ce] read_loop_frame [of s "replicate (nat n) 0" rs]
    by (auto simp: no_nil_listeners_def)
next
  case (Op_Start ws)
  assume "no_nil_listeners s"
  then show ?thesis unfolding Op_Start
    using write_loop_frame [of "s\<lparr>running := True\<rparr>" ws]
    by (simp add: Start_def Let_def case_prod_beta no_nil_listeners_def)
next
  case (Op_SendBatch msgs)
  assume "no_nil_listeners s"
  then show ?thesis unfolding Op_SendBatch using SendBatch_frame [of s msgs]
    by (simp add: no_nil_listeners_def)
qed (auto simp: no_nil_listeners_def SetStatus_def Bind_def OnClose_def OnError_def OnMessage_def
       Send_def Closed_call_fields)

lemma run_ops_no_nil:
  "no_nil_listeners s \<Longrightarrow> no_nil_listeners (fst (snd (run_ops ops s)))"
proof (induction ops arbitrary: s)
  case Nil
  then show ?case by simp
next
  case (Cons x xs)
  have st: "no_nil_listeners (fst (snd (run_op x s)))"
    using Cons.prems by (rule run_op_no_nil)
  show ?case
    using st Cons.IH [OF st]
    by (simp add: run_ops_Cons del: run_ops.simps split: outcome.splits)
qed

text \<open>
  C10. Registering \<open>nil\<close> with \<open>OnClose\<close>, \<open>OnError\<close> or \<open>OnMessage\<close> leaves the session
  as it was. The listener lists of a new session have no \<open>nil\<close> entry, every call
  keeps it so, and so does every sequence of calls on a new session.
\<close>

theorem nil_listeners_never_stored:
  "OnClose s None = s \<and> OnError s None = s \<and> OnMessage s None = s \<and>
   no_nil_listeners (NewSession i c n sc now) \<and>
   (no_nil_listeners s \<longrightarrow> no_nil_listeners (fst (snd (run_op x s)))) \<and>
   no_nil_listeners (fst (snd (run_ops ops (NewSession i c n sc now))))"
proof -
  have new: "no_nil_listeners (NewSession i c n sc now)"
    by (simp add: no_nil_listeners_def NewSession_def)
  show ?thesis
    using new run_op_no_nil [of s x] run_ops_no_nil [OF new, of ops]
    by (simp add: OnClose_def OnError_def OnMessage_def)
qed

theorem nil_listeners_never_stored_witness:
  "no_nil_listeners (OnClose (NewSession 7 0 0 None 0) (Some (Listener 1))) \<and>
   no_nil_listeners (fst (snd (run_op (Op_OnError None) (OnClose (NewSession 7 0 0 None 0) (Some (Listener 1))))))"
proof -
  have h: "no_nil_listeners (OnClose (NewSession 7 0 0 None 0) (Some (Listener 1)))"
    by (simp add: no_nil_listeners_def OnClose_def NewSession_def)
  show ?thesis
    using h nil_listeners_never_stored [of "OnClose (NewSession 7 0 0 None 0) (Some (Listener 1))" _ _ _ _ _ "Op_OnError None"]
    by blast
qed

subsection \<open>Calling \<open>Closed()\<close> again\<close>

lemma Closed_call_again:
  "Closed_call (fst (Closed_call s)) = Closed_call s"
  by (simp add: Closed_call_def Let_def split: option.splits)

lemma Closed_calls_closed:
  "Closed_calls n (fst (Closed_call s)) =
     (fst (Closed_call s), concat (replicate n (snd (Closed_call s))))"
proof (induction n)
  case 0
  show ?case by simp
next
  case (Suc n)
  show ?case using Suc by (simp add: Closed_call_again case_prod_beta)
qed

text \<open>
  C1, as the code has it. Calling \<open>Closed()\<close> once more leaves the session as the first
  call left it, with status \<open>Closed\<close> and \<open>running\<close> false. Each call calls \<open>Remove\<close> on
  the component once if the session has one, so \<open>n + 1\<close> calls make \<open>n + 1\<close> calls of
  \<open>Remove\<close>; and \<open>Closed()\<close> calls no listener.
\<close>

theorem Closed_calls_each_remove:
  "Closed_calls (Suc n) s = (fst (Closed_call s), concat (replicate (Suc n) (snd (Closed_call s)))) \<and>
   snd (Closed_call s) =
     (case sessionComponent s of None \<Rightarrow> [] | Some sc \<Rightarrow> [Component_Remove sc (sid s)]) \<and>
   fst (Closed_call (fst (Closed_call s))) = fst (Closed_call s) \<and>
   status (fst (Closed_call s)) = Closed \<and> \<not> running (fst (Closed_call s)) \<and>
   (\<forall>l. Listener_Call l \<notin> set (snd (Closed_calls (Suc n) s)))"
proof -
  have a: "Closed_calls (Suc n) s = (fst (Closed_call s), concat (replicate (Suc n) (snd (Closed_call s))))"
    using Closed_calls_closed [of n s] by (simp add: case_prod_beta)
  have b: "snd (Closed_call s) =
     (case sessionComponent s of None \<Rightarrow> [] | Some sc \<Rightarrow> [Component_Remove sc (sid s)])"
    by (simp add: Closed_call_def Let_def split: option.splits)
  have c: "\<forall>l. Listener_Call l \<notin> set (snd (Closed_calls (Suc n) s))"
    unfolding a snd_conv b by (auto split: option.splits)
  show ?thesis using a b c by (simp add: Closed_call_again Closed_call_fields)
qed

text \<open>
  C1 as stated fails: on a new session with a component, two calls of \<open>Closed()\<close> call
  \<open>Remove\<close> twice, and the close listener that \<open>NewSession\<close> registered is not called.
\<close>

theorem Closed_twice_removes_twice:
  "onCloseListeners (NewSession 7 0 0 (Some 1) 0) = [Some Debug_on_closed] \<and>
   snd (Closed_calls 1 (NewSession 7 0 0 (Some 1) 0)) = [Component_Remove 1 7] \<and>
   snd (Closed_calls 2 (NewSession 7 0 0 (Some 1) 0)) = [Component_Remove 1 7, Component_Remove 1 7] \<and>
   count_list (snd (Closed_calls 2 (NewSession 7 0 0 (Some 1) 0))) (Component_Remove 1 7) = 2 \<and>
   count_list (snd (Closed_calls 2 (NewSession 7 0 0 (Some 1) 0))) (Listener_Call Debug_on_closed) = 0"
  by (simp add: numeral_2_eq_2 Closed_call_def Let_def NewSession_def)

subsection \<open>The cleanup of \<open>readPackets\<close>\<close>

lemma call_listeners_no_nil:
  "None \<notin> set ls \<Longrightarrow> call_listeners ls = (map Listener_Call (map the ls), False)"
proof (induction ls)
  case Nil
  show ?case by simp
next
  case (Cons a ls)
  then show ?case by (cases a) simp_all
qed

lemma readPackets_after_loop:
  assumes "onMessageListener s \<noteq> None" "0 \<le> n" "None \<notin> set (onCloseListeners s)"
    and "fst (read_loop s (replicate (nat n) 0) rs) = Returned"
  shows "readPackets s n rs ce =
           (Returned, fst (snd (read_loop s (replicate (nat n) 0) rs)),
            snd (snd (read_loop s (replicate (nat n) 0) rs)) @ cleanup_events s ce)"
proof -
  let ?L = "read_loop s (replicate (nat n) 0) rs"
  have f: "onCloseListeners (fst (snd ?L)) = onCloseListeners s"
    using read_loop_frame [of s "replicate (nat n) 0" rs] by simp
  show ?thesis
    using assms call_listeners_no_nil [OF assms(3)]
    by (simp add: readPackets_def Let_def case_prod_beta f cleanup_events_def)
qed

text \<open>The ways out of the loop, each at the turn that takes it.\<close>

lemma read_loop_read_error:
  "running s \<Longrightarrow> None \<notin> set (onErrorListeners s) \<Longrightarrow>
     read_loop s buf (Read_Error # rest) =
       (Returned, s\<lparr>running := False\<rparr>,
        Conn_Read_Error # Logger_Warn # map Listener_Call (map the (onErrorListeners s)))"
  using call_listeners_no_nil [of "onErrorListeners s"] by simp

lemma read_loop_dispatch_error:
  "running s \<Longrightarrow> onMessageListener s = Some f \<Longrightarrow> take (length buf) bs \<noteq> [] \<Longrightarrow>
   f (take (length buf) bs) = Some e \<Longrightarrow>
     read_loop s buf (Read_Bytes bs # rest) =
       (Returned, s,
        [Conn_Read_Bytes (take (length buf) bs), Message_Call (take (length buf) bs), Logger_Warn])"
  by (simp add: read_loop_Read_Bytes Let_def del: read_loop.simps)

lemma read_loop_not_running:
  "\<not> running s \<Longrightarrow> Other_Closed \<notin> set rs \<Longrightarrow> read_loop s buf rs = (Returned, s, [])"
proof (cases rs)
  case Nil
  assume "\<not> running s"
  then show ?thesis using Nil by simp
next
  case (Cons a rest)
  assume "\<not> running s" "Other_Closed \<notin> set rs"
  then show ?thesis using Cons by (cases a) simp_all
qed

lemma read_loop_other_closed:
  "Other_Closed \<notin> set rest \<Longrightarrow>
     read_loop s buf (Other_Closed # rest) = (Returned, fst (Closed_call s), snd (Closed_call s))"
  using read_loop_not_running [of "fst (Closed_call s)" rest buf]
  by (simp add: case_prod_beta Closed_call_fields)

text \<open>
  Turns in which the read succeeds and the listener accepts the message leave the session
  as it is and the buffer at its size, and lead to the next turn.
\<close>

lemma read_loop_prefix:
  assumes "running s" "onMessageListener s = Some f"
  shows "\<forall>bs \<in> set bss. take n bs = [] \<or> f (take n bs) = None \<Longrightarrow> length buf = n \<Longrightarrow>
     \<exists>buf'. length buf' = n \<and>
       read_loop s buf (map Read_Bytes bss @ rs) =
         (fst (read_loop s buf' rs), fst (snd (read_loop s buf' rs)),
          read_events n bss @ snd (snd (read_loop s buf' rs)))"
proof (induction bss arbitrary: buf)
  case Nil
  then show ?case by auto
next
  case (Cons bs bss)
  let ?d = "take (length buf) bs"
  let ?b1 = "?d @ drop (length ?d) buf"
  have len: "length ?b1 = n" using Cons.prems(2) by simp
  have rest: "\<forall>bs \<in> set bss. take n bs = [] \<or> f (take n bs) = None"
    using Cons.prems(1) by (meson list.set_intros(2))
  have hd: "take n bs = [] \<or> f (take n bs) = None"
    using Cons.prems(1) by (meson list.set_intros(1))
  from Cons.IH [OF rest len] obtain buf' where
    b: "length buf' = n" and
    e: "read_loop s ?b1 (map Read_Bytes bss @ rs) =
         (fst (read_loop s buf' rs), fst (snd (read_loop s buf' rs)),
          read_events n bss @ snd (snd (read_loop s buf' rs)))" by blast
  have "read_loop s buf (map Read_Bytes (bs # bss) @ rs) =
         (fst (read_loop s buf' rs), fst (snd (read_loop s buf' rs)),
          read_events n (bs # bss) @ snd (snd (read_loop s buf' rs)))"
    using assms hd e Cons.prems(2)
    by (auto simp add: read_loop_Read_Bytes Let_def Suc_le_eq simp del: read_loop.simps)
  with b show ?case by blast
qed


lemma readPackets_on_read_error:
  assumes "onMessageListener s = Some f" "0 \<le> n" "no_nil_listeners s" "running s"
    and "\<forall>bs \<in> set bss. take (nat n) bs = [] \<or> f (take (nat n) bs) = None"
  shows "readPackets s n (map Read_Bytes bss @ Read_Error # rest) ce =
           (Returned, s\<lparr>running := False\<rparr>,
            read_events (nat n) bss
              @ Conn_Read_Error # Logger_Warn # map Listener_Call (map the (onErrorListeners s))
              @ cleanup_events s ce)"
proof -
  let ?rs = "map Read_Bytes bss @ Read_Error # rest"
  from read_loop_prefix [OF assms(4) assms(1) assms(5), of "replicate (nat n) 0" "Read_Error # rest"]
  obtain buf' where
    e: "read_loop s (replicate (nat n) 0) ?rs =
         (fst (read_loop s buf' (Read_Error # rest)), fst (snd (read_loop s buf' (Read_Error # rest))),
          read_events (nat n) bss @ snd (snd (read_loop s buf' (Read_Error # rest))))"
    by auto
  have x: "read_loop s buf' (Read_Error # rest) =
       (Returned, s\<lparr>running := False\<rparr>,
        Conn_Read_Error # Logger_Warn # map Listener_Call (map the (onErrorListeners s)))"
    using assms(3,4) by (intro read_loop_read_error) (simp_all add: no_nil_listeners_def)
  have l: "read_loop s (replicate (nat n) 0) ?rs =
       (Returned, s\<lparr>running := False\<rparr>,
        read_events (nat n) bss
          @ Conn_Read_Error # Logger_Warn # map Listener_Call (map the (onErrorListeners s)))"
    unfolding e x by simp
  have "readPackets s n ?rs ce =
      (Returned, fst (snd (read_loop s (replicate (nat n) 0) ?rs)),
       snd (snd (read_loop s (replicate (nat n) 0) ?rs)) @ cleanup_events s ce)"
    using assms(1,2,3) l by (intro readPackets_after_loop) (simp_all add: no_nil_listeners_def)
  then show ?thesis unfolding l by simp
qed

lemma readPackets_on_dispatch_error:
  assumes "onMessageListener s = Some f" "0 \<le> n" "no_nil_listeners s" "running s"
    and "\<forall>bs \<in> set bss. take (nat n) bs = [] \<or> f (take (nat n) bs) = None"
    and "take (nat n) bs \<noteq> []" "f (take (nat n) bs) = Some e"
  shows "readPackets s n (map Read_Bytes bss @ Read_Bytes bs # rest) ce =
           (Returned, s,
            read_events (nat n) bss
              @ [Conn_Read_Bytes (take (nat n) bs), Message_Call (take (nat n) bs), Logger_Warn]
              @ cleanup_events s ce)"
proof -
  let ?rs = "map Read_Bytes bss @ Read_Bytes bs # rest"
  from read_loop_prefix [OF assms(4) assms(1) assms(5), of "replicate (nat n) 0" "Read_Bytes bs # rest"]
  obtain buf' where b: "length buf' = nat n" and
    e: "read_loop s (replicate (nat n) 0) ?rs =
         (fst (read_loop s buf' (Read_Bytes bs # rest)),
          fst (snd (read_loop s buf' (Read_Bytes bs # rest))),
          read_events (nat n) bss @ snd (snd (read_loop s buf' (Read_Bytes bs # rest))))"
    by auto
  have x: "read_loop s buf' (Read_Bytes bs # rest) =
       (Returned, s,
        [Conn_Read_Bytes (take (nat n) bs), Message_Call (take (nat n) bs), Logger_Warn])"
    using read_loop_dispatch_error [of s f buf' bs e rest] assms(1,4,6,7) b by simp
  have l: "read_loop s (replicate (nat n) 0) ?rs =
       (Returned, s,
        read_events (nat n) bss
          @ [Conn_Read_Bytes (take (nat n) bs), Message_Call (take (nat n) bs), Logger_Warn])"
    unfolding e x by simp
  have "readPackets s n ?rs ce =
      (Returned, fst (snd (read_loop s (replicate (nat n) 0) ?rs)),
       snd (snd (read_loop s (replicate (nat n) 0) ?rs)) @ cleanup_events s ce)"
    using assms(1,2,3) l by (intro readPackets_after_loop) (simp_all add: no_nil_listeners_def)
  then show ?thesis unfolding l by simp
qed

lemma readPackets_on_other_closed:
  assumes "onMessageListener s = Some f" "0 \<le> n" "no_nil_listeners s" "running s"
    and "\<forall>bs \<in> set bss. take (nat n) bs = [] \<or> f (take (nat n) bs) = None"
    and "Other_Closed \<notin> set rest"
  shows "readPackets s n (map Read_Bytes bss @ Other_Closed # rest) ce =
           (Returned, fst (Closed_call s),
            read_events (nat n) bss @ snd (Closed_call s) @ cleanup_events s ce)"
proof -
  let ?rs = "map Read_Bytes bss @ Other_Closed # rest"
  from read_loop_prefix [OF assms(4) assms(1) assms(5), of "replicate (nat n) 0" "Other_Closed # rest"]
  obtain buf' where
    e: "read_loop s (replicate (nat n) 0) ?rs =
         (fst (read_loop s buf' (Other_Closed # rest)),
          fst (snd (read_loop s buf' (Other_Closed # rest))),
          read_events (nat n) bss @ snd (snd (read_loop s buf' (Other_Closed # rest))))"
    by auto
  have l: "read_loop s (replicate (nat n) 0) ?rs =
       (Returned, fst (Closed_call s), read_events (nat n) bss @ snd (Closed_call s))"
    unfolding e read_loop_other_closed [OF assms(6)] by simp
  have "readPackets s n ?rs ce =
      (Returned, fst (snd (read_loop s (replicate (nat n) 0) ?rs)),
       snd (snd (read_loop s (replicate (nat n) 0) ?rs)) @ cleanup_events s ce)"
    using assms(1,2,3) l by (intro readPackets_after_loop) (simp_all add: no_nil_listeners_def)
  then show ?thesis unfolding l by simp
qed

lemma readPackets_not_running:
  assumes "onMessageListener s = Some f" "0 \<le> n" "no_nil_listeners s" "\<not> running s"
    and "Other_Closed \<notin> set rs"
  shows "readPackets s n rs ce = (Returned, s, cleanup_events s ce)"
proof -
  have l: "read_loop s (replicate (nat n) 0) rs = (Returned, s, [])"
    using assms(4,5) by (rule read_loop_not_running)
  have "readPackets s n rs ce =
      (Returned, fst (snd (read_loop s (replicate (nat n) 0) rs)),
       snd (snd (read_loop s (replicate (nat n) 0) rs)) @ cleanup_events s ce)"
    using assms(1,2,3) l by (intro readPackets_after_loop) (simp_all add: no_nil_listeners_def)
  then show ?thesis unfolding l by simp
qed

text \<open>A listener list grows only by a registration, and at its end.\<close>

lemma run_op_registers:
  "onCloseListeners (fst (snd (run_op x s))) = onCloseListeners s @ registers_close x \<and>
   onErrorListeners (fst (snd (run_op x s))) = onErrorListeners s @ registers_error x"
proof (cases x)
  case (Op_readPackets n rs ce)
  show ?thesis unfolding Op_readPackets
    using readPackets_state [of s n rs ce] read_loop_frame [of s "replicate (nat n) 0" rs]
    by auto
next
  case (Op_Start ws)
  show ?thesis unfolding Op_Start
    using write_loop_frame [of "s\<lparr>running := True\<rparr>" ws]
    by (simp add: Start_def Let_def case_prod_beta)
next
  case (Op_SendBatch msgs)
  show ?thesis unfolding Op_SendBatch using SendBatch_frame [of s msgs] by simp
next
  case (Op_OnClose l)
  show ?thesis unfolding Op_OnClose by (cases l) (simp_all add: OnClose_def)
next
  case (Op_OnError l)
  show ?thesis unfolding Op_OnError by (cases l) (simp_all add: OnError_def)
qed (simp_all add: SetStatus_def Bind_def OnMessage_def Send_def Closed_call_fields)

lemma run_ops_registers:
  "fst (run_ops ops s) = None \<Longrightarrow>
     onCloseListeners (fst (snd (run_ops ops s))) = onCloseListeners s @ concat (map registers_close ops) \<and>
     onErrorListeners (fst (snd (run_ops ops s))) = onErrorListeners s @ concat (map registers_error ops)"
proof (induction ops arbitrary: s)
  case Nil
  show ?case by simp
next
  case (Cons x xs)
  have np: "fst (run_ops xs (fst (snd (run_op x s)))) = None"
    using Cons.prems by (simp add: run_ops_Cons del: run_ops.simps split: outcome.splits)
  show ?case
    using Cons.prems Cons.IH [OF np] run_op_registers [of x s]
    by (simp add: run_ops_Cons del: run_ops.simps split: outcome.splits)
qed


lemma listening_session_fields:
  "onMessageListener (listening_session f) = Some f"
  "onCloseListeners (listening_session f) =
     [Some Debug_on_closed, Some (Listener 1), Some (Listener 3)]"
  "onErrorListeners (listening_session f) = [Some Debug_on_error, Some (Listener 2)]"
  "running (listening_session f)"
  "sessionComponent (listening_session f) = Some 1"
  "sid (listening_session f) = 7"
  by (simp_all add: listening_session_def NewSession_def OnMessage_def OnClose_def OnError_def
        Start_def Let_def)

text \<open>
  C7. Take a session with a message listener and no \<open>nil\<close> entry in its listener lists, as
  every session made by \<open>NewSession\<close> and its operations is, and a buffer size that is not
  negative. Whenever the loop of \<open>readPackets\<close> returns, \<open>readPackets\<close> returns with the
  trace of the loop followed by the cleanup: the calls of all close listeners in the order
  of their list, then \<open>conn.Close()\<close>, then the log of its error if it has one. The loop
  returns, after any number of reads that succeed and are accepted, on each way out: on a
  read error, where the failed read, the warning and the calls of all error listeners in
  the order of their list come before the cleanup; on an error of the message listener; on
  \<open>running\<close> cleared by a \<open>Closed()\<close> from elsewhere; and on a session that is not running
  at the start. In every trace of a \<open>readPackets\<close> that has returned the connection is
  closed once, after the last close listener. The order of a listener list is the order of
  registration: each operation leaves the lists as they are, except that \<open>OnClose\<close> and
  \<open>OnError\<close> with a listener put it at the end of their list, after the one listener
  that \<open>NewSession\<close> has put there.
\<close>

theorem readPackets_cleanup:
  assumes "onMessageListener s = Some f" "0 \<le> n" "no_nil_listeners s"
  shows
    "(fst (read_loop s (replicate (nat n) 0) rs) = Returned \<longrightarrow>
        readPackets s n rs ce =
          (Returned, fst (snd (read_loop s (replicate (nat n) 0) rs)),
           snd (snd (read_loop s (replicate (nat n) 0) rs)) @ cleanup_events s ce)) \<and>
     (running s \<and> (\<forall>b \<in> set bss. take (nat n) b = [] \<or> f (take (nat n) b) = None) \<longrightarrow>
        readPackets s n (map Read_Bytes bss @ Read_Error # rest) ce =
          (Returned, s\<lparr>running := False\<rparr>,
           read_events (nat n) bss
             @ Conn_Read_Error # Logger_Warn # map Listener_Call (map the (onErrorListeners s))
             @ cleanup_events s ce)) \<and>
     (running s \<and> (\<forall>b \<in> set bss. take (nat n) b = [] \<or> f (take (nat n) b) = None) \<and>
      take (nat n) bs \<noteq> [] \<and> f (take (nat n) bs) = Some e \<longrightarrow>
        readPackets s n (map Read_Bytes bss @ Read_Bytes bs # rest) ce =
          (Returned, s,
           read_events (nat n) bss
             @ [Conn_Read_Bytes (take (nat n) bs), Message_Call (take (nat n) bs), Logger_Warn]
             @ cleanup_events s ce)) \<and>
     (running s \<and> (\<forall>b \<in> set bss. take (nat n) b = [] \<or> f (take (nat n) b) = None) \<and>
      Other_Closed \<notin> set rest \<longrightarrow>
        readPackets s n (map Read_Bytes bss @ Other_Closed # rest) ce =
          (Returned, fst (Closed_call s),
           read_events (nat n) bss @ snd (Closed_call s) @ cleanup_events s ce)) \<and>
     (\<not> running s \<and> Other_Closed \<notin> set rs \<longrightarrow>
        readPackets s n rs ce = (Returned, s, cleanup_events s ce)) \<and>
     (readPackets s n rs ce = (Returned, s', tr) \<longrightarrow>
        dropWhile (\<lambda>e. \<not> ends_reading e) tr =
          (if Conn_Read_Error \<in> set tr
           then Conn_Read_Error # Logger_Warn # map Listener_Call (map the (onErrorListeners s))
           else [])
          @ cleanup_events s ce \<and>
        count_list tr Conn_Close = 1) \<and>
     onCloseListeners (fst (snd (run_op x s))) = onCloseListeners s @ registers_close x \<and>
     onErrorListeners (fst (snd (run_op x s))) = onErrorListeners s @ registers_error x \<and>
     (fst (run_ops ops (NewSession i c m sc now)) = None \<longrightarrow>
        onCloseListeners (fst (snd (run_ops ops (NewSession i c m sc now)))) =
          Some Debug_on_closed # concat (map registers_close ops) \<and>
        onErrorListeners (fst (snd (run_ops ops (NewSession i c m sc now)))) =
          Some Debug_on_error # concat (map registers_error ops) \<and>
        no_nil_listeners (fst (snd (run_ops ops (NewSession i c m sc now)))))"
proof -
  have ml: "onMessageListener s \<noteq> None" using assms(1) by simp
  have nc: "None \<notin> set (onCloseListeners s)" using assms(3) by (simp add: no_nil_listeners_def)
  have g: "fst (read_loop s (replicate (nat n) 0) rs) = Returned \<longrightarrow>
        readPackets s n rs ce =
          (Returned, fst (snd (read_loop s (replicate (nat n) 0) rs)),
           snd (snd (read_loop s (replicate (nat n) 0) rs)) @ cleanup_events s ce)"
    using readPackets_after_loop [OF ml assms(2) nc] by blast
  have a: "running s \<and> (\<forall>b \<in> set bss. take (nat n) b = [] \<or> f (take (nat n) b) = None) \<longrightarrow>
        readPackets s n (map Read_Bytes bss @ Read_Error # rest) ce =
          (Returned, s\<lparr>running := False\<rparr>,
           read_events (nat n) bss
             @ Conn_Read_Error # Logger_Warn # map Listener_Call (map the (onErrorListeners s))
             @ cleanup_events s ce)"
    using readPackets_on_read_error [OF assms] by blast
  have b: "running s \<and> (\<forall>b \<in> set bss. take (nat n) b = [] \<or> f (take (nat n) b) = None) \<and>
      take (nat n) bs \<noteq> [] \<and> f (take (nat n) bs) = Some e \<longrightarrow>
        readPackets s n (map Read_Bytes bss @ Read_Bytes bs # rest) ce =
          (Returned, s,
           read_events (nat n) bss
             @ [Conn_Read_Bytes (take (nat n) bs), Message_Call (take (nat n) bs), Logger_Warn]
             @ cleanup_events s ce)"
    using readPackets_on_dispatch_error [OF assms] by blast
  have c: "running s \<and> (\<forall>b \<in> set bss. take (nat n) b = [] \<or> f (take (nat n) b) = None) \<and>
      Other_Closed \<notin> set rest \<longrightarrow>
        readPackets s n (map Read_Bytes bss @ Other_Closed # rest) ce =
          (Returned, fst (Closed_call s),
           read_events (nat n) bss @ snd (Closed_call s) @ cleanup_events s ce)"
    using readPackets_on_other_closed [OF assms] by blast
  have d: "\<not> running s \<and> Other_Closed \<notin> set rs \<longrightarrow>
        readPackets s n rs ce = (Returned, s, cleanup_events s ce)"
    using readPackets_not_running [OF assms] by blast
  have o: "readPackets s n rs ce = (Returned, s', tr) \<longrightarrow>
        dropWhile (\<lambda>e. \<not> ends_reading e) tr =
          (if Conn_Read_Error \<in> set tr
           then Conn_Read_Error # Logger_Warn # map Listener_Call (map the (onErrorListeners s))
           else [])
          @ cleanup_events s ce \<and>
        count_list tr Conn_Close = 1"
    using readPackets_end_of_trace [of s n rs ce s' tr] unfolding cleanup_events_def by blast
  have new: "no_nil_listeners (NewSession i c m sc now)"
    by (simp add: no_nil_listeners_def NewSession_def)
  have r: "fst (run_ops ops (NewSession i c m sc now)) = None \<longrightarrow>
        onCloseListeners (fst (snd (run_ops ops (NewSession i c m sc now)))) =
          Some Debug_on_closed # concat (map registers_close ops) \<and>
        onErrorListeners (fst (snd (run_ops ops (NewSession i c m sc now)))) =
          Some Debug_on_error # concat (map registers_error ops) \<and>
        no_nil_listeners (fst (snd (run_ops ops (NewSession i c m sc now))))"
    using run_ops_registers [of ops "NewSession i c m sc now"] run_ops_no_nil [OF new, of ops]
    by (simp add: NewSession_def)
  show ?thesis
    using g a b c d o r run_op_registers [of x s] by blast
qed


text \<open>
  The session of the examples: three bytes, an empty read and a read error; three bytes and
  a message the listener refuses, with a \<open>conn.Close()\<close> that fails; three bytes and a
  \<open>Closed()\<close> from elsewhere; and \<open>readPackets\<close> on the session after \<open>Closed()\<close>.
\<close>

theorem readPackets_cleanup_witness:
  "running (listening_session (\<lambda>bs. None)) \<and>
   no_nil_listeners (listening_session (\<lambda>bs. None)) \<and>
   readPackets (listening_session (\<lambda>bs. None)) 2048
       (map Read_Bytes [[1, 2, 3], []] @ Read_Error # [Read_Bytes [4]]) False =
     (Returned, (listening_session (\<lambda>bs. None))\<lparr>running := False\<rparr>,
      [Conn_Read_Bytes [1, 2, 3], Message_Call [1, 2, 3], Conn_Read_Bytes [],
       Conn_Read_Error, Logger_Warn, Listener_Call Debug_on_error, Listener_Call (Listener 2),
       Listener_Call Debug_on_closed, Listener_Call (Listener 1), Listener_Call (Listener 3),
       Conn_Close]) \<and>
   readPackets (listening_session (\<lambda>bs. if bs = [9] then Some (Error ''bad'') else None)) 2048
       (map Read_Bytes [[1, 2, 3]] @ Read_Bytes [9] # [Read_Bytes [4]]) True =
     (Returned, listening_session (\<lambda>bs. if bs = [9] then Some (Error ''bad'') else None),
      [Conn_Read_Bytes [1, 2, 3], Message_Call [1, 2, 3], Conn_Read_Bytes [9], Message_Call [9],
       Logger_Warn,
       Listener_Call Debug_on_closed, Listener_Call (Listener 1), Listener_Call (Listener 3),
       Conn_Close, Logger_Error]) \<and>
   readPackets (listening_session (\<lambda>bs. None)) 2048
       (map Read_Bytes [[1, 2, 3]] @ Other_Closed # [Read_Bytes [4]]) False =
     (Returned, fst (Closed_call (listening_session (\<lambda>bs. None))),
      [Conn_Read_Bytes [1, 2, 3], Message_Call [1, 2, 3], Component_Remove 1 7,
       Listener_Call Debug_on_closed, Listener_Call (Listener 1), Listener_Call (Listener 3),
       Conn_Close]) \<and>
   readPackets (fst (Closed_call (listening_session (\<lambda>bs. None)))) 2048 [Read_Bytes [4]] False =
     (Returned, fst (Closed_call (listening_session (\<lambda>bs. None))),
      [Listener_Call Debug_on_closed, Listener_Call (Listener 1), Listener_Call (Listener 3),
       Conn_Close])"
proof -
  let ?f = "\<lambda>bs :: byte list. None :: error option"
  let ?g = "\<lambda>bs :: byte list. if bs = [9] then Some (Error ''bad'') else None"
  let ?S = "listening_session ?f"
  let ?T = "listening_session ?g"
  let ?U = "fst (Closed_call ?S)"
  have n: "(0 :: int) \<le> 2048" by simp
  have run: "running ?S" "running ?T" "\<not> running ?U"
    by (simp_all add: listening_session_fields Closed_call_fields)
  have nn: "no_nil_listeners ?S" "no_nil_listeners ?T" "no_nil_listeners ?U"
    by (simp_all add: no_nil_listeners_def listening_session_fields Closed_call_fields)
  have ml: "onMessageListener ?S = Some ?f" "onMessageListener ?T = Some ?g"
    "onMessageListener ?U = Some ?f"
    by (simp_all add: listening_session_fields Closed_call_fields)
  have p1: "\<forall>b \<in> set [[1, 2, 3], [] :: byte list]. take (nat 2048) b = [] \<or> ?f (take (nat 2048) b) = None"
    by simp
  have p2: "\<forall>b \<in> set [[1, 2, 3 :: byte]]. take (nat 2048) b = [] \<or> ?g (take (nat 2048) b) = None"
    by simp
  have p3: "\<forall>b \<in> set [[1, 2, 3 :: byte]]. take (nat 2048) b = [] \<or> ?f (take (nat 2048) b) = None"
    by simp
  have q2: "take (nat 2048) [9 :: byte] \<noteq> [] \<and> ?g (take (nat 2048) [9]) = Some (Error ''bad'')"
    by simp
  have oc: "Other_Closed \<notin> set [Read_Bytes [4]]" by simp
  from readPackets_cleanup [OF ml(1) n nn(1), where bss = "[[1, 2, 3], []]"
      and rest = "[Read_Bytes [4]]" and ce = False]
    run(1) p1
  have a: "readPackets ?S 2048 (map Read_Bytes [[1, 2, 3], []] @ Read_Error # [Read_Bytes [4]]) False =
          (Returned, ?S\<lparr>running := False\<rparr>,
           read_events (nat 2048) [[1, 2, 3], []]
             @ Conn_Read_Error # Logger_Warn # map Listener_Call (map the (onErrorListeners ?S))
             @ cleanup_events ?S False)"
    by blast
  from readPackets_cleanup [OF ml(2) n nn(2), where bss = "[[1, 2, 3]]" and bs = "[9]"
      and e = "Error ''bad''" and rest = "[Read_Bytes [4]]" and ce = True] run(2) p2 q2
  have b: "readPackets ?T 2048 (map Read_Bytes [[1, 2, 3]] @ Read_Bytes [9] # [Read_Bytes [4]]) True =
          (Returned, ?T,
           read_events (nat 2048) [[1, 2, 3]]
             @ [Conn_Read_Bytes (take (nat 2048) [9]), Message_Call (take (nat 2048) [9]), Logger_Warn]
             @ cleanup_events ?T True)"
    by blast
  from readPackets_cleanup [OF ml(1) n nn(1), where bss = "[[1, 2, 3]]"
      and rest = "[Read_Bytes [4]]" and ce = False]
    run(1) p3 oc
  have c: "readPackets ?S 2048 (map Read_Bytes [[1, 2, 3]] @ Other_Closed # [Read_Bytes [4]]) False =
          (Returned, fst (Closed_call ?S),
           read_events (nat 2048) [[1, 2, 3]] @ snd (Closed_call ?S) @ cleanup_events ?S False)"
    by blast
  from readPackets_cleanup [OF ml(3) n nn(3), where rs = "[Read_Bytes [4]]" and ce = False] run(3) oc
  have d: "readPackets ?U 2048 [Read_Bytes [4]] False = (Returned, ?U, cleanup_events ?U False)"
    by blast
  have rm: "snd (Closed_call ?S) = [Component_Remove 1 7]"
    by (simp add: Closed_call_def Let_def listening_session_fields)
  show ?thesis
    using run(1) nn(1) a b c d
    by (simp add: cleanup_events_def listening_session_fields Closed_call_fields rm)
qed

end
